theory Spec2Isabelle
  imports Complex_Main
begin

section \<open>Data model\<close>

text \<open>
  A note as declared in \<^verbatim>\<open>HorizontalPianoRoll.tsx\<close> (interface \<^verbatim>\<open>Note\<close>). JavaScript
  numbers are modelled as exact reals (times, pixels) or integers (pitches, velocities,
  millisecond timestamps); the optional \<^verbatim>\<open>velocity\<close> is an option.
\<close>

record Note =
  pitch :: int
  startTime :: real
  duration :: real
  velocity :: "int option"

text \<open>
  The editing session of \<^verbatim>\<open>App\<close>: the React state \<^verbatim>\<open>notes\<close> (field
  \<open>notesState\<close>) and the two refs \<^verbatim>\<open>historyRef\<close> and \<^verbatim>\<open>historyIndexRef\<close>.
\<close>

record app =
  history :: "Note list list"
  historyIndex :: int
  notesState :: "Note list"

definition initial :: app where
  "initial = \<lparr>history = [], historyIndex = - 1, notesState = []\<rparr>"

datatype error = SyntaxError

section \<open>JavaScript array primitives\<close>

text \<open>\<^verbatim>\<open>arr[i]\<close>: \<^verbatim>\<open>undefined\<close> (here \<open>None\<close>) outside \<open>0 .. length - 1\<close>.\<close>

definition js_index :: "'a list \<Rightarrow> int \<Rightarrow> 'a option" where
  "js_index xs i = (if 0 \<le> i \<and> i < int (length xs) then Some (xs ! nat i) else None)"

text \<open>\<^verbatim>\<open>arr.slice(0, e)\<close>: a negative end counts from the end of the array.\<close>

definition js_slice0 :: "'a list \<Rightarrow> int \<Rightarrow> 'a list" where
  "js_slice0 xs e = (if e < 0 then take (nat (int (length xs) + e)) xs else take (nat e) xs)"

text \<open>\<^verbatim>\<open>arr.findIndex(p)\<close>: the first index whose element satisfies \<open>p\<close>, or \<open>-1\<close>.\<close>

fun findIndexFrom :: "int \<Rightarrow> ('a \<Rightarrow> bool) \<Rightarrow> 'a list \<Rightarrow> int" where
  "findIndexFrom i p [] = - 1"
| "findIndexFrom i p (x # xs) = (if p x then i else findIndexFrom (i + 1) p xs)"

definition findIndex :: "('a \<Rightarrow> bool) \<Rightarrow> 'a list \<Rightarrow> int" where
  "findIndex p xs = findIndexFrom 0 p xs"

section \<open>Edit history (App)\<close>

text \<open>
  \<^verbatim>\<open>pushHistory\<close>. \<^verbatim>\<open>JSON.stringify(currentState) === newStateStr\<close> compares the two
  note sequences by value, and \<^verbatim>\<open>JSON.parse(newStateStr)\<close> is a copy equal by value, so the
  comparison is HOL equality and the copy is the value itself. An array is truthy, so
  \<^verbatim>\<open>currentState &&\<close> only tests that the entry exists.
\<close>

definition pushHistory :: "app \<Rightarrow> Note list \<Rightarrow> app" where
  "pushHistory s newNotes =
     (if (case js_index (history s) (historyIndex s) of
            None \<Rightarrow> False
          | Some currentState \<Rightarrow> currentState = newNotes)
      then s
      else
        (let h1 = js_slice0 (history s) (historyIndex s + 1);
             h2 = h1 @ [newNotes];
             i2 = int (length h2) - 1
         in if length h2 > 50
            then s\<lparr>history := tl h2, historyIndex := i2 - 1\<rparr>
            else s\<lparr>history := h2, historyIndex := i2\<rparr>))"

text \<open>\<^verbatim>\<open>handleNotesChange\<close>: push, then \<^verbatim>\<open>setNotes(newNotes)\<close>.\<close>

definition handleNotesChange :: "app \<Rightarrow> Note list \<Rightarrow> app" where
  "handleNotesChange s newNotes = (pushHistory s newNotes)\<lparr>notesState := newNotes\<rparr>"

text \<open>
  \<^verbatim>\<open>undo\<close> and \<^verbatim>\<open>redo\<close>. Reading a missing entry gives \<^verbatim>\<open>undefined\<close>, whose
  \<^verbatim>\<open>JSON.stringify\<close> is \<^verbatim>\<open>undefined\<close>, on which \<^verbatim>\<open>JSON.parse\<close> throws a SyntaxError.
\<close>

definition undo :: "app \<Rightarrow> error + app" where
  "undo s =
     (if historyIndex s > 0
      then (let i = historyIndex s - 1
            in case js_index (history s) i of
                 None \<Rightarrow> Inl SyntaxError
               | Some snap \<Rightarrow> Inr (s\<lparr>historyIndex := i, notesState := snap\<rparr>))
      else Inr s)"

definition redo :: "app \<Rightarrow> error + app" where
  "redo s =
     (if historyIndex s < int (length (history s)) - 1
      then (let i = historyIndex s + 1
            in case js_index (history s) i of
                 None \<Rightarrow> Inl SyntaxError
               | Some snap \<Rightarrow> Inr (s\<lparr>historyIndex := i, notesState := snap\<rparr>))
      else Inr s)"

text \<open>
  The history part of \<^verbatim>\<open>loadMidi\<close>: the parsed notes are sorted by start time
  (\<^verbatim>\<open>Array.prototype.sort\<close> is stable), the history is reset to that one snapshot.
\<close>

definition loadMidi :: "Note list \<Rightarrow> app" where
  "loadMidi parsed =
     (let allNotes = sort_key startTime parsed
      in \<lparr>history = [allNotes], historyIndex = 0, notesState = allNotes\<rparr>)"

text \<open>Sequences of operations; a thrown error ends the run.\<close>

datatype action = Load "Note list" | Commit "Note list" | Undo | Redo

fun step :: "app \<Rightarrow> action \<Rightarrow> error + app" where
  "step s (Load parsed) = Inr (loadMidi parsed)"
| "step s (Commit newNotes) = Inr (handleNotesChange s newNotes)"
| "step s Undo = undo s"
| "step s Redo = redo s"

fun run :: "app \<Rightarrow> action list \<Rightarrow> error + app" where
  "run s [] = Inr s"
| "run s (x # xs) = (case step s x of Inl e \<Rightarrow> Inl e | Inr s' \<Rightarrow> run s' xs)"

fun isEdit :: "action \<Rightarrow> bool" where
  "isEdit (Load _) = True"
| "isEdit (Commit _) = True"
| "isEdit Undo = False"
| "isEdit Redo = False"

text \<open>The same operation applied \<open>n\<close> times.\<close>

fun repeatedly :: "nat \<Rightarrow> (app \<Rightarrow> error + app) \<Rightarrow> app \<Rightarrow> error + app" where
  "repeatedly 0 f s = Inr s"
| "repeatedly (Suc n) f s = (case f s of Inl e \<Rightarrow> Inl e | Inr s' \<Rightarrow> repeatedly n f s')"

text \<open>Invariants of the session, used in the proofs below.\<close>

definition histInv :: "app \<Rightarrow> bool" where
  "histInv s \<longleftrightarrow> length (history s) \<le> 50 \<and> - 1 \<le> historyIndex s
      \<and> historyIndex s < int (length (history s))"

definition coherent :: "app \<Rightarrow> bool" where
  "coherent s \<longleftrightarrow> 0 \<le> historyIndex s \<and> historyIndex s < int (length (history s))
      \<and> notesState s = history s ! nat (historyIndex s)"

definition atTop :: "app \<Rightarrow> bool" where
  "atTop s \<longleftrightarrow> coherent s \<and> length (history s) \<le> 50
      \<and> historyIndex s = int (length (history s)) - 1"

section \<open>Tempo entry points (App)\<close>

text \<open>
  The \<^verbatim>\<open>onChange\<close> handler of the BPM field: \<^verbatim>\<open>setTempo(Math.max(1, Number(e.target.value)))\<close>.
  The argument is the number read from the field; the result is the stored tempo.
\<close>

definition tempoOnChange :: "real \<Rightarrow> real" where
  "tempoOnChange v = max 1 v"

text \<open>
  \<^verbatim>\<open>handleTapTempo\<close>. \<open>now\<close> is \<^verbatim>\<open>Date.now()\<close> in milliseconds and \<open>tapTimes\<close> is
  \<^verbatim>\<open>tapTimesRef.current\<close>. The local \<^verbatim>\<open>taps\<close> aliases the array that was current on
  entry: after a reset the ref holds a fresh empty array, while the push, the shift and the
  BPM calculation still work on the old one. The result is the array left in the ref and
  the argument of \<^verbatim>\<open>setTempo\<close>, if it is called. A zero average interval gives
  \<^verbatim>\<open>60000 / 0 = Infinity\<close>, which the clamp turns into 300.
\<close>

definition tapBpm :: "int list \<Rightarrow> real" where
  "tapBpm taps =
     (let intervals = map2 (\<lambda>prev cur. cur - prev) (butlast taps) (tl taps);
          avgInterval = real_of_int (sum_list intervals) / real (length intervals)
      in if avgInterval = 0 then 300
         else min 300 (max 1 (real_of_int (round (60000 / avgInterval)))))"

definition handleTapTempo :: "int \<Rightarrow> int list \<Rightarrow> int list \<times> real option" where
  "handleTapTempo now tapTimes =
     (let reset = (length tapTimes > 0 \<and> now - last tapTimes > 2000);
          pushed = tapTimes @ [now];
          taps = (if length pushed > 8 then tl pushed else pushed)
      in (if reset then [] else taps,
          if length taps \<ge> 2 then Some (tapBpm taps) else None))"

section \<open>Piano roll (HorizontalPianoRoll)\<close>

definition getSubdivisionBeats :: "string \<Rightarrow> real" where
  "getSubdivisionBeats subdivision =
     (if subdivision = ''1/1'' then 4
      else if subdivision = ''1/2'' then 2
      else if subdivision = ''1/4'' then 1
      else if subdivision = ''1/8'' then 1 / 2
      else if subdivision = ''1/8T'' then 1 / 3
      else if subdivision = ''1/16'' then 1 / 4
      else if subdivision = ''1/16T'' then 1 / 6
      else if subdivision = ''1/32'' then 1 / 8
      else 1 / 2)"

text \<open>The displayed pitch range, computed from the notes on every render.\<close>

definition minNoteOf :: "Note list \<Rightarrow> int" where
  "minNoteOf ns =
     (let pitches = map pitch ns;
          minNotePitch = (if length pitches > 0 then Min (set pitches) else 60)
      in max 21 (\<lfloor>real_of_int (minNotePitch - 2) / 12\<rfloor> * 12))"

definition maxNoteOf :: "Note list \<Rightarrow> int" where
  "maxNoteOf ns =
     (let pitches = map pitch ns;
          maxNotePitch = (if length pitches > 0 then Max (set pitches) else 72)
      in min 108 (\<lceil>real_of_int (maxNotePitch + 2) / 12\<rceil> * 12 + 11))"

text \<open>
  The active-note set built by \<^verbatim>\<open>updatePlayhead\<close> from the transport time
  \<open>elapsed\<close>: a \<^verbatim>\<open>forEach\<close> over the notes adding pitches to an initially empty set.
\<close>

definition updatePlayhead_active :: "Note list \<Rightarrow> real \<Rightarrow> int set" where
  "updatePlayhead_active ns elapsed =
     foldl (\<lambda>active n.
              if elapsed \<ge> startTime n \<and> elapsed < startTime n + duration n
              then insert (pitch n) active else active) {} ns"

text \<open>
  \<^verbatim>\<open>findNoteAtPosition\<close>; \<open>minNote\<close>, \<open>maxNote\<close>, \<open>pixelsPerSecond\<close> and
  \<open>NOTE_HEIGHT\<close> are the values of the current render.
\<close>

definition findNoteAtPosition ::
  "Note list \<Rightarrow> int \<Rightarrow> int \<Rightarrow> real \<Rightarrow> real \<Rightarrow> real \<Rightarrow> real \<Rightarrow> int" where
  "findNoteAtPosition ns minNote maxNote pixelsPerSecond NOTE_HEIGHT clickX clickY =
     findIndex (\<lambda>n.
        if pitch n < minNote \<or> pitch n > maxNote then False
        else (let noteX = startTime n * pixelsPerSecond;
                  noteIdx = maxNote - pitch n;
                  noteY = real_of_int noteIdx * NOTE_HEIGHT;
                  noteW = max (duration n * pixelsPerSecond) 6;
                  noteH = NOTE_HEIGHT - 1
              in clickX \<ge> noteX \<and> clickX \<le> noteX + noteW
                 \<and> clickY \<ge> noteY \<and> clickY \<le> noteY + noteH)) ns"

text \<open>
  The rectangle test in the words of the specification: the note is rendered (its pitch
  lies in the displayed range) and the point lies in \<open>[x, x+w] \<times> [y, y+h]\<close>.
\<close>

definition spec_rect_contains ::
  "int \<Rightarrow> int \<Rightarrow> real \<Rightarrow> real \<Rightarrow> real \<Rightarrow> real \<Rightarrow> Note \<Rightarrow> bool" where
  "spec_rect_contains minNote maxNote pixelsPerSecond rowHeight clickX clickY n \<longleftrightarrow>
     minNote \<le> pitch n \<and> pitch n \<le> maxNote
     \<and> startTime n * pixelsPerSecond \<le> clickX
     \<and> clickX \<le> startTime n * pixelsPerSecond + max (duration n * pixelsPerSecond) 6
     \<and> real_of_int (maxNote - pitch n) * rowHeight \<le> clickY
     \<and> clickY \<le> real_of_int (maxNote - pitch n) * rowHeight + (rowHeight - 1)"

subsection \<open>Keyboard editing\<close>

record keyEvent =
  key :: string
  ctrlKey :: bool
  metaKey :: bool

text \<open>
  Two outcomes of the handler leave the model of notes with real-valued fields: with
  tempo 0 the step \<^verbatim>\<open>60 / tempo\<close> is \<^verbatim>\<open>Infinity\<close> and the new start times are
  \<^verbatim>\<open>NaN\<close>; with a selected index beyond the end of the array the spread of
  \<^verbatim>\<open>undefined\<close> is an empty object, stored at that index with a \<^verbatim>\<open>NaN\<close> field.
\<close>

datatype unmodelled = NonFiniteStep | NotANote

text \<open>The per-note updates of the three editing loops.\<close>

definition quantizeNote :: "real \<Rightarrow> real \<Rightarrow> Note \<Rightarrow> Note" where
  "quantizeNote offset secondsPerSubdiv n =
     (let gridPosition = round ((startTime n - offset) / secondsPerSubdiv)
      in n\<lparr>startTime := max 0 (offset + real_of_int gridPosition * secondsPerSubdiv)\<rparr>)"

definition nudgeTimeNote :: "real \<Rightarrow> real \<Rightarrow> real \<Rightarrow> Note \<Rightarrow> Note" where
  "nudgeTimeNote direction offset secondsPerSubdiv n =
     (let t = max 0 (startTime n + direction * secondsPerSubdiv);
          gridPosition = round ((t - offset) / secondsPerSubdiv)
      in n\<lparr>startTime := offset + real_of_int gridPosition * secondsPerSubdiv\<rparr>)"

definition nudgePitchNote :: "int \<Rightarrow> int \<Rightarrow> int \<Rightarrow> Note \<Rightarrow> Note" where
  "nudgePitchNote direction minNote maxNote n =
     n\<lparr>pitch := max minNote (min maxNote (pitch n + direction))\<rparr>"

text \<open>
  \<^verbatim>\<open>selectedNoteIndices.forEach\<close> over a copy of the notes: every selected position is
  replaced by its updated note. The positions are distinct, so the order of the set does
  not matter.
\<close>

definition updateSelected :: "(Note \<Rightarrow> Note) \<Rightarrow> nat set \<Rightarrow> Note list \<Rightarrow> Note list" where
  "updateSelected f sel ns =
     map (\<lambda>(i, n). if i \<in> sel then f n else n) (zip [0..<length ns] ns)"

definition editSelected ::
  "(Note \<Rightarrow> Note) \<Rightarrow> nat set \<Rightarrow> Note list \<Rightarrow> unmodelled + nat set \<times> Note list option" where
  "editSelected f sel ns =
     (if \<forall>i\<in>sel. i < length ns then Inr (sel, Some (updateSelected f sel ns))
      else Inl NotANote)"

text \<open>
  \<^verbatim>\<open>handleKeyDown\<close> of the piano roll. \<open>sel\<close> is \<^verbatim>\<open>selectedNoteIndices\<close>,
  \<open>hasOnNotesChange\<close> tells whether the \<^verbatim>\<open>onNotesChange\<close> prop is present, \<open>ns\<close> is the
  note sequence (\<^verbatim>\<open>notes\<close>, mirrored by \<^verbatim>\<open>notesRef.current\<close>). The result is the
  selection after the event and the argument of \<^verbatim>\<open>onNotesChange\<close>, if it is called.
  After the quantize branch, which returns, the source has a sequence of independent
  \<^verbatim>\<open>if\<close> statements on pairwise different key names; at most one of them runs, so they
  are written as one chain.
\<close>

definition handleKeyDown ::
  "nat set \<Rightarrow> bool \<Rightarrow> Note list \<Rightarrow> real \<Rightarrow> real \<Rightarrow> string \<Rightarrow> int \<Rightarrow> int \<Rightarrow> keyEvent
     \<Rightarrow> unmodelled + nat set \<times> Note list option" where
  "handleKeyDown sel hasOnNotesChange ns tempo offset subdivision minNote maxNote e =
     (if sel = {} \<or> \<not> hasOnNotesChange then Inr (sel, None)
      else
        (let secondsPerBeat = 60 / tempo;
             subdivBeats = getSubdivisionBeats subdivision;
             secondsPerSubdiv = secondsPerBeat * subdivBeats
         in if key e = ''q'' \<or> key e = ''Q'' then
              (if tempo = 0 then Inl NonFiniteStep
               else editSelected (quantizeNote offset secondsPerSubdiv) sel ns)
            else if key e = ''ArrowLeft'' \<or> key e = ''ArrowRight'' then
              (let direction = (if key e = ''ArrowLeft'' then - 1 else 1)
               in if tempo = 0 then Inl NonFiniteStep
                  else editSelected (nudgeTimeNote direction offset secondsPerSubdiv) sel ns)
            else if key e = ''ArrowUp'' \<or> key e = ''ArrowDown'' then
              (let direction = (if key e = ''ArrowUp'' then 1 else - 1)
               in editSelected (nudgePitchNote direction minNote maxNote) sel ns)
            else if key e = ''Delete'' \<or> key e = ''Backspace'' then
              Inr ({}, Some (map snd (filter (\<lambda>(i, n). i \<notin> sel) (zip [0..<length ns] ns))))
            else if key e = ''Escape'' then Inr ({}, None)
            else if (ctrlKey e \<or> metaKey e) \<and> key e = ''a'' then
              Inr ({0..<length ns}, None)
            else Inr (sel, None)))"

text \<open>The start time that the quantize loop stores in a note whose start time is \<open>t\<close>.\<close>

definition quantizeTime :: "real \<Rightarrow> real \<Rightarrow> real \<Rightarrow> real" where
  "quantizeTime offset secondsPerSubdiv t =
     max 0 (offset + real_of_int (round ((t - offset) / secondsPerSubdiv)) * secondsPerSubdiv)"

section \<open>Duplicate suppression\<close>

text \<open>
  C5. Pushing a snapshot equal by value to the snapshot at the history cursor changes
  nothing: the history (hence its length) and the cursor stay as they were.
\<close>

theorem pushHistory_duplicate:
  "js_index (history s) (historyIndex s) = Some newNotes \<Longrightarrow>
     pushHistory s newNotes = s"
  by (simp add: pushHistory_def)

theorem pushHistory_duplicate_witness:
  "js_index (history (loadMidi [])) (historyIndex (loadMidi [])) = Some [] \<and>
   pushHistory (loadMidi []) [] = loadMidi []"
  using pushHistory_duplicate [of "loadMidi []" "[]"]
  by (simp add: loadMidi_def js_index_def)

section \<open>History invariant\<close>

lemma histInv_initial: "histInv initial"
  by (simp add: histInv_def initial_def)

lemma histInv_loadMidi: "histInv (loadMidi p)" "0 \<le> historyIndex (loadMidi p)"
  by (simp_all add: histInv_def loadMidi_def Let_def)

lemma histInv_pushHistory:
  assumes "histInv s"
  shows "histInv (pushHistory s n)" and "0 \<le> historyIndex (pushHistory s n)"
  using assms
  by (auto simp: histInv_def pushHistory_def js_index_def js_slice0_def Let_def
      split: option.splits if_splits)

lemma histInv_handleNotesChange:
  assumes "histInv s"
  shows "histInv (handleNotesChange s n)" and "0 \<le> historyIndex (handleNotesChange s n)"
  using histInv_pushHistory [OF assms, of n]
  by (simp_all add: handleNotesChange_def histInv_def)

lemma histInv_undo:
  assumes "histInv s"
  shows "\<exists>s'. undo s = Inr s' \<and> histInv s' \<and> (0 \<le> historyIndex s \<longrightarrow> 0 \<le> historyIndex s')"
  using assms
  by (auto simp: histInv_def undo_def js_index_def Let_def)

lemma histInv_redo:
  assumes "histInv s"
  shows "\<exists>s'. redo s = Inr s' \<and> histInv s' \<and> (0 \<le> historyIndex s \<longrightarrow> 0 \<le> historyIndex s')"
  using assms
  by (auto simp: histInv_def redo_def js_index_def Let_def)

lemma histInv_step:
  assumes "histInv s"
  shows "\<exists>s'. step s x = Inr s' \<and> histInv s'
           \<and> (0 \<le> historyIndex s \<or> isEdit x \<longrightarrow> 0 \<le> historyIndex s')"
proof (cases x)
  case (Load p)
  then show ?thesis by (simp add: histInv_loadMidi)
next
  case (Commit n)
  then show ?thesis using histInv_handleNotesChange [OF assms, of n] by simp
next
  case Undo
  then show ?thesis using histInv_undo [OF assms] by auto
next
  case Redo
  then show ?thesis using histInv_redo [OF assms] by auto
qed

lemma histInv_run:
  "histInv s \<Longrightarrow>
     \<exists>s'. run s xs = Inr s' \<and> histInv s'
        \<and> (0 \<le> historyIndex s \<or> list_ex isEdit xs \<longrightarrow> 0 \<le> historyIndex s')"
proof (induction xs arbitrary: s)
  case Nil
  then show ?case by simp
next
  case (Cons x xs)
  from histInv_step [OF Cons.prems, of x] obtain s1 where
    s1: "step s x = Inr s1" "histInv s1"
        "0 \<le> historyIndex s \<or> isEdit x \<longrightarrow> 0 \<le> historyIndex s1"
    by blast
  from Cons.IH [OF s1(2)] obtain s2 where
    s2: "run s1 xs = Inr s2" "histInv s2"
        "0 \<le> historyIndex s1 \<or> list_ex isEdit xs \<longrightarrow> 0 \<le> historyIndex s2"
    by blast
  show ?case using s1 s2 by auto
qed

lemma pushHistory_evicts:
  "length (history s) = 50 \<Longrightarrow> historyIndex s = 49 \<Longrightarrow> history s ! 49 \<noteq> n \<Longrightarrow>
     pushHistory s n = s\<lparr>history := tl (history s) @ [n], historyIndex := 49\<rparr>"
  by (cases "history s") (simp_all add: pushHistory_def js_index_def js_slice0_def Let_def)

lemma run_no_edit:
  "\<not> list_ex isEdit xs \<Longrightarrow> run initial xs = Inr initial"
proof (induction xs)
  case Nil
  then show ?case by simp
next
  case (Cons x xs)
  then have x: "\<not> isEdit x" and xs: "\<not> list_ex isEdit xs" by simp_all
  from x have "step initial x = Inr initial"
    by (cases x) (simp_all add: undo_def redo_def initial_def)
  with Cons.IH [OF xs] show ?case by simp
qed

text \<open>
  C6, amended. Every sequence of load, commit, undo and redo operations runs without an
  error and ends in a state whose history has at most 50 entries and whose cursor lies
  between \<open>-1\<close> and the last index. Once the sequence holds a load or a commit the
  cursor is a valid index \<open>0 .. length - 1\<close>; a sequence without one ends in the initial
  state, whose history is empty and whose cursor is \<open>-1\<close>. A push onto a full history
  whose cursor is at the last entry evicts the oldest entry and leaves the cursor at 49.
\<close>

theorem history_invariant:
  "(\<exists>s. run initial xs = Inr s
       \<and> length (history s) \<le> 50
       \<and> - 1 \<le> historyIndex s \<and> historyIndex s < int (length (history s))
       \<and> (list_ex isEdit xs \<longrightarrow> 0 \<le> historyIndex s)
       \<and> (\<not> list_ex isEdit xs \<longrightarrow> s = initial \<and> history s = [] \<and> historyIndex s = - 1))
   \<and> (\<forall>s n. length (history s) = 50 \<and> historyIndex s = 49 \<and> history s ! 49 \<noteq> n \<longrightarrow>
         history (pushHistory s n) = tl (history s) @ [n] \<and> historyIndex (pushHistory s n) = 49)"
proof
  from histInv_run [OF histInv_initial, of xs] obtain s where
    s: "run initial xs = Inr s" "histInv s" "list_ex isEdit xs \<longrightarrow> 0 \<le> historyIndex s"
    by (auto simp: initial_def)
  have "\<not> list_ex isEdit xs \<longrightarrow> s = initial \<and> history s = [] \<and> historyIndex s = - 1"
  proof
    assume "\<not> list_ex isEdit xs"
    from run_no_edit [OF this] s(1) have "s = initial" by simp
    then show "s = initial \<and> history s = [] \<and> historyIndex s = - 1"
      by (simp add: initial_def)
  qed
  with s show "\<exists>s. run initial xs = Inr s
       \<and> length (history s) \<le> 50
       \<and> - 1 \<le> historyIndex s \<and> historyIndex s < int (length (history s))
       \<and> (list_ex isEdit xs \<longrightarrow> 0 \<le> historyIndex s)
       \<and> (\<not> list_ex isEdit xs \<longrightarrow> s = initial \<and> history s = [] \<and> historyIndex s = - 1)"
    by (auto simp: histInv_def)
next
  show "\<forall>s n. length (history s) = 50 \<and> historyIndex s = 49 \<and> history s ! 49 \<noteq> n \<longrightarrow>
         history (pushHistory s n) = tl (history s) @ [n] \<and> historyIndex (pushHistory s n) = 49"
    by (simp add: pushHistory_evicts)
qed

theorem history_invariant_witness:
  "list_ex isEdit
     [Load [], Commit [\<lparr>pitch = 60, startTime = 0, duration = 1, velocity = None\<rparr>],
      Undo, Undo, Redo]
   \<and> (\<exists>s. run initial
             [Load [], Commit [\<lparr>pitch = 60, startTime = 0, duration = 1, velocity = None\<rparr>],
              Undo, Undo, Redo] = Inr s
         \<and> length (history s) \<le> 50 \<and> 0 \<le> historyIndex s
         \<and> historyIndex s < int (length (history s)))
   \<and> \<not> list_ex isEdit [Undo, Redo, Undo]
   \<and> run initial [Undo, Redo, Undo] = Inr initial
   \<and> history initial = [] \<and> historyIndex initial = - 1
   \<and> length (history \<lparr>history = replicate 50 [], historyIndex = 49, notesState = []\<rparr>) = 50
   \<and> replicate 50 [] ! 49 \<noteq> [\<lparr>pitch = 60, startTime = 0, duration = 1, velocity = None\<rparr>]
   \<and> history (pushHistory \<lparr>history = replicate 50 [], historyIndex = 49, notesState = []\<rparr>
         [\<lparr>pitch = 60, startTime = 0, duration = 1, velocity = None\<rparr>])
       = tl (replicate 50 []) @ [[\<lparr>pitch = 60, startTime = 0, duration = 1, velocity = None\<rparr>]]
   \<and> historyIndex (pushHistory \<lparr>history = replicate 50 [], historyIndex = 49, notesState = []\<rparr>
         [\<lparr>pitch = 60, startTime = 0, duration = 1, velocity = None\<rparr>]) = 49"
proof -
  let ?c = "[\<lparr>pitch = 60, startTime = 0, duration = 1, velocity = None\<rparr>]"
  let ?xs = "[Load [], Commit ?c, Undo, Undo, Redo]"
  let ?ys = "[Undo, Redo, Undo]"
  let ?s = "\<lparr>history = replicate 50 [], historyIndex = 49, notesState = []\<rparr>"
  note h = history_invariant [of ?xs]
  have e: "list_ex isEdit ?xs" by simp
  from h e have a: "\<exists>s. run initial ?xs = Inr s
         \<and> length (history s) \<le> 50 \<and> 0 \<le> historyIndex s
         \<and> historyIndex s < int (length (history s))"
    by blast
  have ne: "\<not> list_ex isEdit ?ys" by simp
  from history_invariant [of ?ys] ne
  have "\<exists>s. run initial ?ys = Inr s \<and> s = initial \<and> history s = [] \<and> historyIndex s = - 1"
    by blast
  then have i: "run initial ?ys = Inr initial" "history initial = []" "historyIndex initial = - 1"
    by auto
  have p: "length (history ?s) = 50 \<and> historyIndex ?s = 49 \<and> history ?s ! 49 \<noteq> ?c"
    by simp
  from h have "length (history ?s) = 50 \<and> historyIndex ?s = 49 \<and> history ?s ! 49 \<noteq> ?c \<longrightarrow>
         history (pushHistory ?s ?c) = tl (history ?s) @ [?c] \<and> historyIndex (pushHistory ?s ?c) = 49"
    by blast
  with p have b: "history (pushHistory ?s ?c) = tl (history ?s) @ [?c]
      \<and> historyIndex (pushHistory ?s ?c) = 49"
    by blast
  from p have p': "length (history ?s) = 50" "replicate 50 [] ! 49 \<noteq> ?c" by simp_all
  from b have b': "history (pushHistory ?s ?c) = tl (replicate 50 []) @ [?c]"
    "historyIndex (pushHistory ?s ?c) = 49" by simp_all
  from e a ne i p' b' show ?thesis by (intro conjI)
qed

text \<open>
  Before the first load or commit the history is empty and the cursor is \<open>-1\<close>, which
  is not an index of the history; an undo there changes nothing.
\<close>

theorem history_invariant_counterexample:
  "run initial [Undo] = Inr initial
   \<and> history initial = []
   \<and> \<not> (0 \<le> historyIndex initial \<and> historyIndex initial \<le> int (length (history initial)) - 1)"
  by (simp add: undo_def initial_def)

section \<open>History round trip\<close>

lemma atTop_loadMidi: "atTop (loadMidi p)"
  by (simp add: atTop_def coherent_def loadMidi_def Let_def)

lemma atTop_handleNotesChange:
  assumes "atTop s"
  shows "atTop (handleNotesChange s n)"
    and "historyIndex (handleNotesChange s n) \<le> historyIndex s + 1"
  using assms
  by (auto simp: atTop_def coherent_def handleNotesChange_def pushHistory_def js_index_def
      js_slice0_def Let_def nth_append nth_tl split: option.splits if_splits)

lemma atTop_commits:
  "atTop s \<Longrightarrow> atTop (foldl handleNotesChange s cs)
     \<and> historyIndex (foldl handleNotesChange s cs) \<le> historyIndex s + int (length cs)"
proof (induction cs arbitrary: s)
  case Nil
  then show ?case by simp
next
  case (Cons c cs)
  from atTop_handleNotesChange [OF Cons.prems, of c] Cons.IH [of "handleNotesChange s c"]
  show ?case by auto
qed

lemma undo_coherent:
  "coherent s \<Longrightarrow>
     undo s = Inr (s\<lparr>historyIndex := max 0 (historyIndex s - 1),
                     notesState := history s ! nat (max 0 (historyIndex s - 1))\<rparr>)"
  by (auto simp: coherent_def undo_def js_index_def Let_def max_def)

lemma redo_coherent:
  assumes c: "coherent s"
  shows "redo s = Inr (s\<lparr>historyIndex := min (int (length (history s)) - 1) (historyIndex s + 1),
                     notesState := history s ! nat (min (int (length (history s)) - 1) (historyIndex s + 1))\<rparr>)"
proof (cases "historyIndex s < int (length (history s)) - 1")
  case True
  then have m: "min (int (length (history s)) - 1) (historyIndex s + 1) = historyIndex s + 1"
    by simp
  from True c show ?thesis
    by (simp add: m coherent_def redo_def js_index_def Let_def)
next
  case False
  with c have e: "int (length (history s)) - 1 = historyIndex s"
    by (simp add: coherent_def)
  have "redo s = Inr s" using False by (simp add: redo_def)
  moreover have "min (historyIndex s) (historyIndex s + 1) = historyIndex s" by simp
  ultimately show ?thesis using c by (simp add: e coherent_def)
qed

lemma repeatedly_undo:
  "coherent s \<Longrightarrow>
     repeatedly n undo s = Inr (s\<lparr>historyIndex := max 0 (historyIndex s - int n),
                     notesState := history s ! nat (max 0 (historyIndex s - int n))\<rparr>)"
proof (induction n arbitrary: s)
  case 0
  then show ?case by (simp add: coherent_def)
next
  case (Suc n)
  let ?s1 = "s\<lparr>historyIndex := max 0 (historyIndex s - 1),
                     notesState := history s ! nat (max 0 (historyIndex s - 1))\<rparr>"
  have c1: "coherent ?s1" using Suc.prems by (auto simp: coherent_def)
  have m: "max 0 (max 0 (historyIndex s - 1) - int n) = max 0 (historyIndex s - int (Suc n))"
    by simp
  show ?case
    using undo_coherent [OF Suc.prems] Suc.IH [OF c1] by (simp add: m del: of_nat_Suc)
qed

lemma repeatedly_redo:
  "coherent s \<Longrightarrow>
     repeatedly n redo s =
       Inr (s\<lparr>historyIndex := min (int (length (history s)) - 1) (historyIndex s + int n),
              notesState := history s ! nat (min (int (length (history s)) - 1) (historyIndex s + int n))\<rparr>)"
proof (induction n arbitrary: s)
  case 0
  then have "min (int (length (history s)) - 1) (historyIndex s) = historyIndex s"
    by (simp add: coherent_def)
  with 0 show ?case by (simp add: coherent_def)
next
  case (Suc n)
  let ?i = "min (int (length (history s)) - 1) (historyIndex s + 1)"
  let ?s1 = "s\<lparr>historyIndex := ?i, notesState := history s ! nat ?i\<rparr>"
  have c1: "coherent ?s1" using Suc.prems by (auto simp: coherent_def)
  have m: "min (int (length (history s)) - 1) (?i + int n)
      = min (int (length (history s)) - 1) (historyIndex s + int (Suc n))"
    by simp
  show ?case
    using redo_coherent [OF Suc.prems] Suc.IH [OF c1] by (simp add: m del: of_nat_Suc)
qed

lemma round_trip_atTop:
  assumes t: "atTop s" and n: "historyIndex s \<le> int n"
  shows "\<exists>u. repeatedly n undo s = Inr u \<and> historyIndex u = 0 \<and> repeatedly n redo u = Inr s"
proof -
  let ?u = "s\<lparr>historyIndex := 0, notesState := history s ! 0\<rparr>"
  from t have c: "coherent s" by (simp add: atTop_def)
  have m: "max 0 (historyIndex s - int n) = 0" using n by simp
  have u: "repeatedly n undo s = Inr ?u"
    using repeatedly_undo [OF c, of n] by (simp add: m)
  from c have "0 \<le> historyIndex s \<and> historyIndex s < int (length (history s))"
    by (simp add: coherent_def)
  then have "0 < int (length (history s))" by linarith
  then have ne: "history s \<noteq> []" by auto
  have cu: "coherent ?u" using ne by (simp add: coherent_def)
  have k: "min (int (length (history s)) - 1) (int n) = historyIndex s"
    using t n by (simp add: atTop_def)
  have "repeatedly n redo ?u = Inr s"
    using repeatedly_redo [OF cu, of n] c by (simp add: k coherent_def)
  with u show ?thesis by simp
qed

lemma atTop_first_commit:
  "atTop (handleNotesChange initial c)" "historyIndex (handleNotesChange initial c) = 0"
  by (simp_all add: atTop_def coherent_def handleNotesChange_def pushHistory_def initial_def
      js_index_def js_slice0_def Let_def)

lemma notesState_commits:
  "cs \<noteq> [] \<Longrightarrow> notesState (foldl handleNotesChange s cs) = last cs"
  by (cases cs rule: rev_cases) (simp_all add: handleNotesChange_def)

text \<open>
  C1. Start from a freshly loaded session or from the initial one and make any commits
  \<open>C1 .. Cn\<close>. Then \<open>n\<close> undos succeed and stop at the oldest retained entry, and
  \<open>n\<close> redos from there restore the whole session state (history, cursor and note
  sequence) as it was after \<open>Cn\<close>, whose note sequence is \<open>Cn\<close>. Undo and redo clamp
  at the ends of the history, so this holds whether or not some commit was a duplicate.
\<close>

theorem history_round_trip:
  assumes "s0 = loadMidi parsed \<or> s0 = initial"
  shows "\<exists>u. repeatedly (length cs) undo (foldl handleNotesChange s0 cs) = Inr u
      \<and> historyIndex u \<le> 0
      \<and> repeatedly (length cs) redo u = Inr (foldl handleNotesChange s0 cs)
      \<and> (cs \<noteq> [] \<longrightarrow> notesState (foldl handleNotesChange s0 cs) = last cs)"
proof -
  let ?s = "foldl handleNotesChange s0 cs"
  have n: "cs \<noteq> [] \<longrightarrow> notesState ?s = last cs"
    by (simp add: notesState_commits)
  have "\<exists>u. repeatedly (length cs) undo ?s = Inr u \<and> historyIndex u \<le> 0
      \<and> repeatedly (length cs) redo u = Inr ?s"
    using assms
  proof
    assume s0: "s0 = loadMidi parsed"
    from atTop_commits [OF atTop_loadMidi, of parsed cs]
    have "atTop ?s" and "historyIndex ?s \<le> int (length cs)"
      by (simp_all add: s0 loadMidi_def Let_def)
    from round_trip_atTop [OF this] show ?thesis by force
  next
    assume s0: "s0 = initial"
    show ?thesis
    proof (cases cs)
      case Nil
      then show ?thesis by (simp add: s0 initial_def)
    next
      case (Cons c cs')
      from atTop_commits [OF atTop_first_commit(1), of c cs']
      have "atTop ?s" and "historyIndex ?s \<le> int (length cs)"
        by (simp_all add: s0 Cons atTop_first_commit(2))
      from round_trip_atTop [OF this] show ?thesis by force
    qed
  qed
  with n show ?thesis by blast
qed

theorem history_round_trip_witness:
  "(loadMidi [\<lparr>pitch = 60, startTime = 0, duration = 1, velocity = None\<rparr>]
      = loadMidi [\<lparr>pitch = 60, startTime = 0, duration = 1, velocity = None\<rparr>]
    \<or> loadMidi [\<lparr>pitch = 60, startTime = 0, duration = 1, velocity = None\<rparr>] = initial)
   \<and> [[], [\<lparr>pitch = 60, startTime = 0, duration = 1, velocity = None\<rparr>]] \<noteq> []
   \<and> (\<exists>u. repeatedly 2 undo
             (foldl handleNotesChange
                (loadMidi [\<lparr>pitch = 60, startTime = 0, duration = 1, velocity = None\<rparr>])
                [[], [\<lparr>pitch = 60, startTime = 0, duration = 1, velocity = None\<rparr>]]) = Inr u
      \<and> historyIndex u \<le> 0
      \<and> repeatedly 2 redo u
          = Inr (foldl handleNotesChange
                (loadMidi [\<lparr>pitch = 60, startTime = 0, duration = 1, velocity = None\<rparr>])
                [[], [\<lparr>pitch = 60, startTime = 0, duration = 1, velocity = None\<rparr>]])
      \<and> notesState (foldl handleNotesChange
                (loadMidi [\<lparr>pitch = 60, startTime = 0, duration = 1, velocity = None\<rparr>])
                [[], [\<lparr>pitch = 60, startTime = 0, duration = 1, velocity = None\<rparr>]])
          = [\<lparr>pitch = 60, startTime = 0, duration = 1, velocity = None\<rparr>])"
proof -
  let ?c = "[\<lparr>pitch = 60, startTime = 0, duration = 1, velocity = None\<rparr>]"
  have l: "length [[], ?c] = 2" by simp
  have ne: "[[], ?c] \<noteq> []" by simp
  have la: "last [[], ?c] = ?c" by simp
  have s: "loadMidi ?c = loadMidi ?c \<or> loadMidi ?c = initial" by simp
  from history_round_trip [OF s, of "[[], ?c]"] show ?thesis
    unfolding l la using ne by blast
qed

section \<open>Active notes\<close>

lemma foldl_active:
  "foldl (\<lambda>active n. if P n then insert (pitch n) active else active) A ns
     = A \<union> {pitch n |n. n \<in> set ns \<and> P n}"
  by (induction ns arbitrary: A) auto

text \<open>
  C4. The active-note set of a frame is the set of pitches of the notes whose half-open
  interval \<open>[startTime, startTime + duration)\<close> holds the transport time. A note with
  start time 2 and duration 1 is active at 2 and at 2.99, inactive at 1.99 and at 3.
\<close>

theorem active_notes_half_open:
  "updatePlayhead_active ns t
     = {pitch n |n. n \<in> set ns \<and> t \<ge> startTime n \<and> t < startTime n + duration n}
   \<and> updatePlayhead_active [\<lparr>pitch = p, startTime = 2, duration = 1, velocity = v\<rparr>] 2 = {p}
   \<and> updatePlayhead_active [\<lparr>pitch = p, startTime = 2, duration = 1, velocity = v\<rparr>] 2.99 = {p}
   \<and> updatePlayhead_active [\<lparr>pitch = p, startTime = 2, duration = 1, velocity = v\<rparr>] 1.99 = {}
   \<and> updatePlayhead_active [\<lparr>pitch = p, startTime = 2, duration = 1, velocity = v\<rparr>] 3 = {}"
proof -
  have "updatePlayhead_active ns t
     = {pitch n |n. n \<in> set ns \<and> t \<ge> startTime n \<and> t < startTime n + duration n}"
    unfolding updatePlayhead_active_def
    by (simp add: foldl_active [where P = "\<lambda>n. t \<ge> startTime n \<and> t < startTime n + duration n"])
  then show ?thesis by (simp add: updatePlayhead_active_def)
qed

section \<open>Point hit test\<close>

lemma findIndexFrom_none:
  "0 \<le> i \<Longrightarrow> (findIndexFrom i p xs = - 1) = (\<forall>x\<in>set xs. \<not> p x)"
  by (induction xs arbitrary: i) auto

lemma findIndexFrom_some:
  "0 \<le> i \<Longrightarrow> \<exists>x\<in>set xs. p x \<Longrightarrow>
     i \<le> findIndexFrom i p xs \<and> nat (findIndexFrom i p xs - i) < length xs
     \<and> p (xs ! nat (findIndexFrom i p xs - i))
     \<and> (\<forall>j<nat (findIndexFrom i p xs - i). \<not> p (xs ! j))"
proof (induction xs arbitrary: i)
  case Nil
  then show ?case by simp
next
  case (Cons x xs)
  show ?case
  proof (cases "p x")
    case True
    then show ?thesis by simp
  next
    case False
    with Cons.prems have ex: "\<exists>x\<in>set xs. p x" by simp
    have i1: "0 \<le> i + 1" using Cons.prems by simp
    note ih = Cons.IH [OF i1 ex]
    let ?r = "findIndexFrom (i + 1) p xs"
    from ih have n: "nat (?r - i) = Suc (nat (?r - (i + 1)))" by linarith
    from ih have a: "i \<le> ?r" "nat (?r - (i + 1)) < length xs" "p (xs ! nat (?r - (i + 1)))"
      by simp_all
    have b: "\<forall>j<nat (?r - i). \<not> p ((x # xs) ! j)"
    proof (intro allI impI)
      fix j assume "j < nat (?r - i)"
      then show "\<not> p ((x # xs) ! j)"
        using False ih by (cases j) (simp_all add: n)
    qed
    from False a b show ?thesis by (simp add: n)
  qed
qed

lemma findIndex_first:
  "(if \<exists>x\<in>set xs. p x
    then 0 \<le> findIndex p xs \<and> nat (findIndex p xs) < length xs \<and> p (xs ! nat (findIndex p xs))
         \<and> (\<forall>j<nat (findIndex p xs). \<not> p (xs ! j))
    else findIndex p xs = - 1)"
  using findIndexFrom_some [of 0 xs p] findIndexFrom_none [of 0 p xs]
  by (auto simp: findIndex_def)

lemma findNoteAtPosition_spec:
  "findNoteAtPosition ns minNote maxNote pps h cx cy
     = findIndex (spec_rect_contains minNote maxNote pps h cx cy) ns"
proof -
  have "(\<lambda>n. if pitch n < minNote \<or> pitch n > maxNote then False
        else (let noteX = startTime n * pps;
                  noteIdx = maxNote - pitch n;
                  noteY = real_of_int noteIdx * h;
                  noteW = max (duration n * pps) 6;
                  noteH = h - 1
              in cx \<ge> noteX \<and> cx \<le> noteX + noteW \<and> cy \<ge> noteY \<and> cy \<le> noteY + noteH))
     = spec_rect_contains minNote maxNote pps h cx cy"
    by (rule ext) (auto simp: spec_rect_contains_def Let_def)
  then show ?thesis by (simp add: findNoteAtPosition_def)
qed

text \<open>
  C9, amended. The point hit test returns the first note in store order that is rendered
  and whose rectangle \<open>[x, x+w] \<times> [y, y+h]\<close> contains the click, and \<open>-1\<close> when there
  is none. A note with start time 1 and duration 0.1 at 100 pixels per second has width
  \<open>max 10 6 = 10\<close> and spans \<open>x = 100 .. 110\<close>: clicks at 100, 105 and 110 hit it,
  clicks at 99 and 111 do not.
\<close>

theorem findNoteAtPosition_first:
  "(if \<exists>n\<in>set ns. spec_rect_contains minNote maxNote pps h cx cy n
    then 0 \<le> findNoteAtPosition ns minNote maxNote pps h cx cy
       \<and> nat (findNoteAtPosition ns minNote maxNote pps h cx cy) < length ns
       \<and> spec_rect_contains minNote maxNote pps h cx cy
            (ns ! nat (findNoteAtPosition ns minNote maxNote pps h cx cy))
       \<and> (\<forall>j<nat (findNoteAtPosition ns minNote maxNote pps h cx cy).
             \<not> spec_rect_contains minNote maxNote pps h cx cy (ns ! j))
    else findNoteAtPosition ns minNote maxNote pps h cx cy = - 1)
   \<and> max ((1 / 10) * 100) 6 = (10 :: real)
   \<and> minNoteOf [\<lparr>pitch = 60, startTime = 1, duration = 1 / 10, velocity = v\<rparr>] = 48
   \<and> maxNoteOf [\<lparr>pitch = 60, startTime = 1, duration = 1 / 10, velocity = v\<rparr>] = 83
   \<and> findNoteAtPosition [\<lparr>pitch = 60, startTime = 1, duration = 1 / 10, velocity = v\<rparr>]
        48 83 100 10 100 232 = 0
   \<and> findNoteAtPosition [\<lparr>pitch = 60, startTime = 1, duration = 1 / 10, velocity = v\<rparr>]
        48 83 100 10 105 232 = 0
   \<and> findNoteAtPosition [\<lparr>pitch = 60, startTime = 1, duration = 1 / 10, velocity = v\<rparr>]
        48 83 100 10 110 232 = 0
   \<and> findNoteAtPosition [\<lparr>pitch = 60, startTime = 1, duration = 1 / 10, velocity = v\<rparr>]
        48 83 100 10 111 232 = - 1
   \<and> findNoteAtPosition [\<lparr>pitch = 60, startTime = 1, duration = 1 / 10, velocity = v\<rparr>]
        48 83 100 10 99 232 = - 1"
proof -
  have g: "(if \<exists>n\<in>set ns. spec_rect_contains minNote maxNote pps h cx cy n
    then 0 \<le> findNoteAtPosition ns minNote maxNote pps h cx cy
       \<and> nat (findNoteAtPosition ns minNote maxNote pps h cx cy) < length ns
       \<and> spec_rect_contains minNote maxNote pps h cx cy
            (ns ! nat (findNoteAtPosition ns minNote maxNote pps h cx cy))
       \<and> (\<forall>j<nat (findNoteAtPosition ns minNote maxNote pps h cx cy).
             \<not> spec_rect_contains minNote maxNote pps h cx cy (ns ! j))
    else findNoteAtPosition ns minNote maxNote pps h cx cy = - 1)"
    unfolding findNoteAtPosition_spec by (rule findIndex_first)
  have c: "max ((1 / 10) * 100) 6 = (10 :: real)"
    "minNoteOf [\<lparr>pitch = 60, startTime = 1, duration = 1 / 10, velocity = v\<rparr>] = 48"
    "maxNoteOf [\<lparr>pitch = 60, startTime = 1, duration = 1 / 10, velocity = v\<rparr>] = 83"
    by (simp_all add: minNoteOf_def maxNoteOf_def)
  have e: "findNoteAtPosition [\<lparr>pitch = 60, startTime = 1, duration = 1 / 10, velocity = v\<rparr>]
        48 83 100 10 100 232 = 0"
    "findNoteAtPosition [\<lparr>pitch = 60, startTime = 1, duration = 1 / 10, velocity = v\<rparr>]
        48 83 100 10 105 232 = 0"
    "findNoteAtPosition [\<lparr>pitch = 60, startTime = 1, duration = 1 / 10, velocity = v\<rparr>]
        48 83 100 10 110 232 = 0"
    "findNoteAtPosition [\<lparr>pitch = 60, startTime = 1, duration = 1 / 10, velocity = v\<rparr>]
        48 83 100 10 111 232 = - 1"
    "findNoteAtPosition [\<lparr>pitch = 60, startTime = 1, duration = 1 / 10, velocity = v\<rparr>]
        48 83 100 10 99 232 = - 1"
    by (simp_all add: findNoteAtPosition_def findIndex_def)
  from g c e show ?thesis by (intro conjI)
qed

theorem findNoteAtPosition_first_witness:
  "(\<exists>n\<in>set [\<lparr>pitch = 60, startTime = 1, duration = 1, velocity = None\<rparr>,
              \<lparr>pitch = 60, startTime = 1, duration = 2, velocity = None\<rparr>].
       spec_rect_contains 48 83 100 10 150 232 n)
   \<and> findNoteAtPosition [\<lparr>pitch = 60, startTime = 1, duration = 1, velocity = None\<rparr>,
              \<lparr>pitch = 60, startTime = 1, duration = 2, velocity = None\<rparr>] 48 83 100 10 150 232 = 0"
proof -
  let ?ns = "[\<lparr>pitch = 60, startTime = 1, duration = 1, velocity = None\<rparr>,
              \<lparr>pitch = 60, startTime = 1, duration = 2, velocity = None\<rparr>]"
  let ?r = "findNoteAtPosition ?ns 48 83 100 10 150 232"
  have h: "\<exists>n\<in>set ?ns. spec_rect_contains 48 83 100 10 150 232 n"
    by (simp add: spec_rect_contains_def)
  have b: "spec_rect_contains 48 83 100 10 150 232 (?ns ! 0)"
    by (simp add: spec_rect_contains_def)
  from findNoteAtPosition_first [of ?ns 48 83 100 10 150 232 None] h
  have r: "0 \<le> ?r" "\<forall>j<nat ?r. \<not> spec_rect_contains 48 83 100 10 150 232 (?ns ! j)"
    by presburger+
  have "nat ?r = 0"
  proof (rule ccontr)
    assume "nat ?r \<noteq> 0"
    then have "0 < nat ?r" by simp
    with r(2) b show False by blast
  qed
  with r(1) have "?r = 0" by simp
  with h show ?thesis by blast
qed

text \<open>
  The example of the specification places the note at \<open>x = 1000 .. 1010\<close>; a click at 1005
  misses it.
\<close>

theorem findNoteAtPosition_counterexample:
  "findNoteAtPosition [\<lparr>pitch = 60, startTime = 1, duration = 1 / 10, velocity = None\<rparr>]
     (minNoteOf [\<lparr>pitch = 60, startTime = 1, duration = 1 / 10, velocity = None\<rparr>])
     (maxNoteOf [\<lparr>pitch = 60, startTime = 1, duration = 1 / 10, velocity = None\<rparr>])
     100 10 1005 232 = - 1"
  by (simp add: findNoteAtPosition_def findIndex_def minNoteOf_def maxNoteOf_def)

section \<open>Key bindings\<close>

text \<open>
  C8, amended. Every key binding is behind the same guard: with an empty selection or
  without the edit-notification collaborator no key changes anything. With a non-empty
  selection and the collaborator present, Ctrl/Cmd+A selects every index of the note store
  and Escape clears the selection; neither notifies a change of notes.
\<close>

theorem key_bindings_gated:
  "(sel = {} \<or> \<not> hasOnNotesChange \<longrightarrow>
      handleKeyDown sel hasOnNotesChange ns tempo offset subdivision minNote maxNote e
        = Inr (sel, None))
   \<and> (sel \<noteq> {} \<longrightarrow>
        handleKeyDown sel True ns tempo offset subdivision minNote maxNote
          \<lparr>key = ''a'', ctrlKey = True, metaKey = m\<rparr> = Inr ({0..<length ns}, None)
      \<and> handleKeyDown sel True ns tempo offset subdivision minNote maxNote
          \<lparr>key = ''a'', ctrlKey = c, metaKey = True\<rparr> = Inr ({0..<length ns}, None)
      \<and> handleKeyDown sel True ns tempo offset subdivision minNote maxNote
          \<lparr>key = ''Escape'', ctrlKey = c, metaKey = m\<rparr> = Inr ({}, None))"
  by (simp add: handleKeyDown_def Let_def)

theorem key_bindings_gated_witness:
  "({} :: nat set) = {} \<and> {0 :: nat} \<noteq> {}
   \<and> handleKeyDown {} True [\<lparr>pitch = 60, startTime = 0, duration = 1, velocity = None\<rparr>]
        120 0 ''1/8'' 48 83 \<lparr>key = ''Escape'', ctrlKey = False, metaKey = False\<rparr> = Inr ({}, None)
   \<and> handleKeyDown {0} True [\<lparr>pitch = 60, startTime = 0, duration = 1, velocity = None\<rparr>,
          \<lparr>pitch = 62, startTime = 1, duration = 1, velocity = None\<rparr>]
        120 0 ''1/8'' 48 83 \<lparr>key = ''a'', ctrlKey = True, metaKey = False\<rparr> = Inr ({0..<2}, None)"
  using key_bindings_gated [of "{}" True "[\<lparr>pitch = 60, startTime = 0, duration = 1, velocity = None\<rparr>]"
      120 0 "''1/8''" 48 83 "\<lparr>key = ''Escape'', ctrlKey = False, metaKey = False\<rparr>" False False]
    key_bindings_gated [of "{0}" True "[\<lparr>pitch = 60, startTime = 0, duration = 1, velocity = None\<rparr>,
          \<lparr>pitch = 62, startTime = 1, duration = 1, velocity = None\<rparr>]"
      120 0 "''1/8''" 48 83 "\<lparr>key = ''Escape'', ctrlKey = False, metaKey = False\<rparr>" False False]
  by (simp add: numeral_2_eq_2)

text \<open>
  The specification makes select-all unconditional; with an empty selection Ctrl+A does
  not select the notes.
\<close>

theorem select_all_counterexample:
  "handleKeyDown {} True [\<lparr>pitch = 60, startTime = 0, duration = 1, velocity = None\<rparr>]
        120 0 ''1/8'' 48 83 \<lparr>key = ''a'', ctrlKey = True, metaKey = False\<rparr>
     \<noteq> Inr ({0..<length [\<lparr>pitch = 60, startTime = 0, duration = 1, velocity = None\<rparr>]}, None)"
  by (simp add: handleKeyDown_def)

section \<open>Quantize\<close>

lemma quantizeNote_startTime:
  "startTime (quantizeNote offset s n) = quantizeTime offset s (startTime n)"
  by (simp add: quantizeNote_def quantizeTime_def Let_def)

lemma quantizeTime_idem:
  assumes s: "0 < s" and t: "0 \<le> t"
  shows "quantizeTime offset s (quantizeTime offset s t) = quantizeTime offset s t"
proof -
  let ?k = "round ((t - offset) / s)"
  show ?thesis
  proof (cases "0 \<le> offset + real_of_int ?k * s")
    case True
    then have q: "quantizeTime offset s t = offset + real_of_int ?k * s"
      by (simp add: quantizeTime_def)
    have "(offset + real_of_int ?k * s - offset) / s = real_of_int ?k"
      using s by simp
    then have "quantizeTime offset s (offset + real_of_int ?k * s)
        = max 0 (offset + real_of_int ?k * s)"
      by (simp add: quantizeTime_def)
    with q True show ?thesis by simp
  next
    case False
    then have q: "quantizeTime offset s t = 0"
      by (simp add: quantizeTime_def)
    let ?k' = "round ((0 - offset) / s)"
    have "(0 - offset) / s \<le> (t - offset) / s"
      using s t by (intro divide_right_mono) simp_all
    then have "?k' \<le> ?k" by (rule round_mono)
    then have "real_of_int ?k' * s \<le> real_of_int ?k * s"
      using s by simp
    with False have "offset + real_of_int ?k' * s < 0" by linarith
    then have "quantizeTime offset s 0 = 0"
      by (simp add: quantizeTime_def)
    with q show ?thesis by simp
  qed
qed

lemma updateSelected_length: "length (updateSelected f sel ns) = length ns"
  by (simp add: updateSelected_def)

lemma updateSelected_nth:
  "i < length ns \<Longrightarrow> updateSelected f sel ns ! i = (if i \<in> sel then f (ns ! i) else ns ! i)"
  by (simp add: updateSelected_def)

lemma subdiv_pos: "0 < tempo \<Longrightarrow> 0 < 60 / tempo * getSubdivisionBeats subdivision"
  by (simp add: getSubdivisionBeats_def)

lemma handleKeyDown_q:
  assumes "sel \<noteq> {}" "\<forall>j\<in>sel. j < length ns" "0 < tempo"
  shows "handleKeyDown sel True ns tempo offset subdivision minNote maxNote
           \<lparr>key = ''q'', ctrlKey = c, metaKey = m\<rparr>
         = Inr (sel, Some (updateSelected
              (quantizeNote offset (60 / tempo * getSubdivisionBeats subdivision)) sel ns))"
  using assms by (simp add: handleKeyDown_def Let_def editSelected_def)

text \<open>
  C3. With a positive tempo, the quantize key stores in every selected note the start time
  \<open>max 0 (offset + round ((t - offset) / secondsPerSubdiv) * secondsPerSubdiv)\<close>, and
  pressing it again with the same tempo, offset and subdivision leaves the start time of
  every selected note unchanged when the note was already quantized, and also when its
  original start time was not negative.
\<close>

theorem quantize_idempotent:
  assumes sel: "sel \<noteq> {}" "\<forall>j\<in>sel. j < length ns" and tempo: "0 < tempo"
  shows "\<exists>ns1 ns2.
      handleKeyDown sel True ns tempo offset subdivision minNote maxNote
          \<lparr>key = ''q'', ctrlKey = c, metaKey = m\<rparr> = Inr (sel, Some ns1)
    \<and> handleKeyDown sel True ns1 tempo offset subdivision minNote maxNote
          \<lparr>key = ''q'', ctrlKey = c, metaKey = m\<rparr> = Inr (sel, Some ns2)
    \<and> (\<forall>i\<in>sel.
          startTime (ns1 ! i)
            = max 0 (offset + real_of_int (round ((startTime (ns ! i) - offset)
                  / (60 / tempo * getSubdivisionBeats subdivision)))
                * (60 / tempo * getSubdivisionBeats subdivision))
        \<and> (startTime (ns ! i) = startTime (ns1 ! i) \<or> 0 \<le> startTime (ns ! i)
              \<longrightarrow> startTime (ns2 ! i) = startTime (ns1 ! i)))"
proof -
  let ?s = "60 / tempo * getSubdivisionBeats subdivision"
  let ?ns1 = "updateSelected (quantizeNote offset ?s) sel ns"
  let ?ns2 = "updateSelected (quantizeNote offset ?s) sel ?ns1"
  have s: "0 < ?s" using tempo by (rule subdiv_pos)
  have sel1: "\<forall>j\<in>sel. j < length ?ns1" using sel(2) by (simp add: updateSelected_length)
  have a: "handleKeyDown sel True ns tempo offset subdivision minNote maxNote
          \<lparr>key = ''q'', ctrlKey = c, metaKey = m\<rparr> = Inr (sel, Some ?ns1)"
    using sel tempo by (rule handleKeyDown_q)
  have b: "handleKeyDown sel True ?ns1 tempo offset subdivision minNote maxNote
          \<lparr>key = ''q'', ctrlKey = c, metaKey = m\<rparr> = Inr (sel, Some ?ns2)"
    using sel(1) sel1 tempo by (rule handleKeyDown_q)
  have c: "\<forall>i\<in>sel.
          startTime (?ns1 ! i)
            = max 0 (offset + real_of_int (round ((startTime (ns ! i) - offset) / ?s)) * ?s)
        \<and> (startTime (ns ! i) = startTime (?ns1 ! i) \<or> 0 \<le> startTime (ns ! i)
              \<longrightarrow> startTime (?ns2 ! i) = startTime (?ns1 ! i))"
  proof
    fix i assume i: "i \<in> sel"
    with sel(2) have li: "i < length ns" by blast
    have n1: "startTime (?ns1 ! i) = quantizeTime offset ?s (startTime (ns ! i))"
      using i li by (simp add: updateSelected_nth quantizeNote_startTime)
    have n2: "startTime (?ns2 ! i) = quantizeTime offset ?s (startTime (?ns1 ! i))"
      using i li by (simp add: updateSelected_nth updateSelected_length quantizeNote_startTime)
    have "startTime (?ns2 ! i) = startTime (?ns1 ! i)"
      if "startTime (ns ! i) = startTime (?ns1 ! i) \<or> 0 \<le> startTime (ns ! i)"
      using that
    proof
      assume "startTime (ns ! i) = startTime (?ns1 ! i)"
      with n1 n2 show ?thesis by simp
    next
      assume "0 \<le> startTime (ns ! i)"
      from quantizeTime_idem [OF s this] n1 n2 show ?thesis by simp
    qed
    with n1 show "startTime (?ns1 ! i)
            = max 0 (offset + real_of_int (round ((startTime (ns ! i) - offset) / ?s)) * ?s)
        \<and> (startTime (ns ! i) = startTime (?ns1 ! i) \<or> 0 \<le> startTime (ns ! i)
              \<longrightarrow> startTime (?ns2 ! i) = startTime (?ns1 ! i))"
      by (simp add: quantizeTime_def)
  qed
  from a b c show ?thesis by blast
qed

theorem quantize_idempotent_witness:
  "{0 :: nat} \<noteq> {}
   \<and> (0 :: nat) < length [\<lparr>pitch = 60, startTime = 3 / 10, duration = 1, velocity = None\<rparr>]
   \<and> (0 :: real) < 120
   \<and> (0 :: real) \<le> startTime ([\<lparr>pitch = 60, startTime = 3 / 10, duration = 1, velocity = None\<rparr>] ! 0)
   \<and> (\<exists>ns1 ns2.
        handleKeyDown {0} True [\<lparr>pitch = 60, startTime = 3 / 10, duration = 1, velocity = None\<rparr>]
          120 0 ''1/4'' 48 83 \<lparr>key = ''q'', ctrlKey = False, metaKey = False\<rparr> = Inr ({0}, Some ns1)
      \<and> handleKeyDown {0} True ns1
          120 0 ''1/4'' 48 83 \<lparr>key = ''q'', ctrlKey = False, metaKey = False\<rparr> = Inr ({0}, Some ns2)
      \<and> startTime (ns1 ! 0) = 1 / 2
      \<and> startTime (ns2 ! 0) = startTime (ns1 ! 0))"
proof -
  let ?ns = "[\<lparr>pitch = 60, startTime = 3 / 10, duration = 1, velocity = None\<rparr>]"
  have h: "{0 :: nat} \<noteq> {}" "\<forall>j\<in>{0 :: nat}. j < length ?ns" "(0 :: real) < 120"
    by simp_all
  have t: "(0 :: real) \<le> startTime (?ns ! 0)" by simp
  have r: "max 0 (0 + real_of_int (round ((startTime (?ns ! 0) - 0)
                  / (60 / 120 * getSubdivisionBeats ''1/4'')))
                * (60 / 120 * getSubdivisionBeats ''1/4'')) = 1 / 2"
    by (simp add: getSubdivisionBeats_def round_def)
  from quantize_idempotent [OF h, of 0 "''1/4''" 48 83 False False]
  obtain ns1 ns2 where
    a: "handleKeyDown {0} True ?ns 120 0 ''1/4'' 48 83
          \<lparr>key = ''q'', ctrlKey = False, metaKey = False\<rparr> = Inr ({0}, Some ns1)"
    and b: "handleKeyDown {0} True ns1 120 0 ''1/4'' 48 83
          \<lparr>key = ''q'', ctrlKey = False, metaKey = False\<rparr> = Inr ({0}, Some ns2)"
    and c: "\<forall>i\<in>{0 :: nat}.
          startTime (ns1 ! i)
            = max 0 (0 + real_of_int (round ((startTime (?ns ! i) - 0)
                  / (60 / 120 * getSubdivisionBeats ''1/4'')))
                * (60 / 120 * getSubdivisionBeats ''1/4''))
        \<and> (startTime (?ns ! i) = startTime (ns1 ! i) \<or> 0 \<le> startTime (?ns ! i)
              \<longrightarrow> startTime (ns2 ! i) = startTime (ns1 ! i))"
    by blast
  from c have c0: "startTime (ns1 ! 0)
            = max 0 (0 + real_of_int (round ((startTime (?ns ! 0) - 0)
                  / (60 / 120 * getSubdivisionBeats ''1/4'')))
                * (60 / 120 * getSubdivisionBeats ''1/4''))"
    and c1: "startTime (?ns ! 0) = startTime (ns1 ! 0) \<or> 0 \<le> startTime (?ns ! 0)
              \<longrightarrow> startTime (ns2 ! 0) = startTime (ns1 ! 0)"
    by blast+
  from c0 r have d: "startTime (ns1 ! 0) = 1 / 2" by simp
  from c1 t have e: "startTime (ns2 ! 0) = startTime (ns1 ! 0)" by blast
  have l: "(0 :: nat) < length ?ns" by simp
  from h(1) l h(3) t a b d e show ?thesis by blast
qed

section \<open>Nudge in time\<close>

lemma nudgeTimeNote_on_grid:
  "\<exists>k :: int. startTime (nudgeTimeNote direction offset s n) = offset + real_of_int k * s"
  by (auto simp: nudgeTimeNote_def Let_def)

text \<open>
  C2. At tempo 60, subdivision 1/4 (a step of one second) and offset 0.7, ArrowLeft on a
  selected note that starts at 0 clamps the shifted time to 0 and then snaps it to the
  grid point \<open>0.7 - 1\<close>: the stored start time is negative.
\<close>

theorem nudge_left_negative:
  "handleKeyDown {0} True [\<lparr>pitch = 60, startTime = 0, duration = 1, velocity = None\<rparr>]
        60 (7 / 10) ''1/4'' 48 83 \<lparr>key = ''ArrowLeft'', ctrlKey = False, metaKey = False\<rparr>
     = Inr ({0}, Some [\<lparr>pitch = 60, startTime = - (3 / 10), duration = 1, velocity = None\<rparr>])"
  by (simp add: handleKeyDown_def Let_def editSelected_def updateSelected_def nudgeTimeNote_def
      getSubdivisionBeats_def round_def)

section \<open>Tempo entry points\<close>

lemma handleTapTempo_clamped:
  "snd (handleTapTempo now tapTimes) = Some bpm \<Longrightarrow> 1 \<le> bpm \<and> bpm \<le> 300"
  by (auto simp: handleTapTempo_def tapBpm_def Let_def split: if_splits)

lemma tempoOnChange_lower: "1 \<le> tempoOnChange v"
  by (simp add: tempoOnChange_def)

text \<open>
  C7. The BPM field clamps from below only: the value 500 is stored as tempo 500.
\<close>

theorem tempo_input_unclamped:
  "tempoOnChange 500 = 500 \<and> \<not> tempoOnChange 500 \<le> 300"
  by (simp add: tempoOnChange_def)

section \<open>Tap tempo reset\<close>

text \<open>
  C10. A tap more than 2000 ms after the previous one leaves the stored tap sequence
  empty: the earlier taps and the tap itself are gone. The next tap is then alone in the
  sequence and sets no tempo; the one after it does.
\<close>

theorem tap_reset:
  "tapTimes \<noteq> [] \<Longrightarrow> now - last tapTimes > 2000 \<Longrightarrow>
     fst (handleTapTempo now tapTimes) = []
     \<and> handleTapTempo next1 [] = ([next1], None)
     \<and> (\<exists>bpm. snd (handleTapTempo next2 [next1]) = Some bpm)"
  by (simp add: handleTapTempo_def Let_def)

theorem tap_reset_witness:
  "[0, 500 :: int] \<noteq> [] \<and> (3000 :: int) - last [0, 500] > 2000
   \<and> fst (handleTapTempo 3000 [0, 500]) = []
   \<and> handleTapTempo 3500 [] = ([3500], None)
   \<and> (\<exists>bpm. snd (handleTapTempo 4000 [3500]) = Some bpm)"
  using tap_reset [of "[0, 500]" 3000 3500 4000]
  by simp

text \<open>The tap that triggers the reset still sets a tempo, averaged over the old taps and the gap.\<close>

lemma tap_reset_averages_gap: "handleTapTempo 3000 [0, 500] = ([], Some 40)"
  by (simp add: handleTapTempo_def Let_def tapBpm_def)

end
